theory Spec2Isabelle
  imports Main "HOL-Library.Multiset" "HOL-Library.Sublist"
begin

section \<open>The priority queue of ilm_qa.py\<close>

subsection \<open>Data model\<close>

text \<open>
  The module constants \<^verbatim>\<open>MIN_PR: int = 0\<close> and \<^verbatim>\<open>MAX_PR: int = 10\<close>.
\<close>

definition MIN_PR :: int where
  "MIN_PR = 0"

definition MAX_PR :: int where
  "MAX_PR = 10"

text \<open>
  \<^verbatim>\<open>class Command(str)\<close>: a command is a string; the queue never looks inside it.
\<close>

type_synonym Command = string

text \<open>
  The dataclass \<^verbatim>\<open>Job\<close> with its fields \<^verbatim>\<open>command\<close>, \<^verbatim>\<open>priority\<close> and
  \<^verbatim>\<open>next\<close> (a \<^verbatim>\<open>Job\<close> or \<^verbatim>\<open>None\<close>). The selector of the last field is
  written \<open>next'\<close>, since \<open>next\<close> is a keyword of the proof language. Jobs are
  created inside \<^verbatim>\<open>enqueue\<close> and never handed out, so no two chains share a node and
  a chain is a value.
\<close>

datatype Job = Job (command: Command) (priority: int) (next': "Job option")

text \<open>
  The only exception the queue raises: the failed \<^verbatim>\<open>assert\<close> of
  \<^verbatim>\<open>Job.__post_init__\<close>, with the message
  "`priority` must be an integer value [0, 10]".
\<close>

datatype error = InvalidPriority

text \<open>
  \<^verbatim>\<open>Job(command, priority)\<close>: the generated constructor sets \<^verbatim>\<open>next = None\<close>, then
  \<^verbatim>\<open>__post_init__\<close> asserts \<^verbatim>\<open>priority in range(MIN_PR, MAX_PR + 1)\<close>.
\<close>

definition Job_init :: "Command \<Rightarrow> int \<Rightarrow> error + Job" where
  "Job_init c pr =
     (if MIN_PR \<le> pr \<and> pr < MAX_PR + 1 then Inr (Job c pr None) else Inl InvalidPriority)"

text \<open>
  \<^verbatim>\<open>class PriorityQueue\<close>: one field, \<^verbatim>\<open>head\<close>; \<^verbatim>\<open>__init__\<close> sets it to \<^verbatim>\<open>None\<close>.
\<close>

record PriorityQueue =
  head :: "Job option"

definition PriorityQueue_init :: PriorityQueue where
  "PriorityQueue_init = \<lparr>head = None\<rparr>"

subsection \<open>Operations\<close>

definition is_empty :: "PriorityQueue \<Rightarrow> bool" where
  "is_empty q = (head q = None)"

text \<open>
  The \<^verbatim>\<open>else\<close> branch of \<^verbatim>\<open>enqueue\<close>, started at \<^verbatim>\<open>current\<close>:
  \<^verbatim>\<open>
  while current.next is not None and current.next.priority >= priority:
      current = current.next
  job.next = current.next
  current.next = job
  \<close>
  The result is the node \<^verbatim>\<open>current\<close> as it is after the two assignments.
\<close>

fun insert_after :: "Job \<Rightarrow> int \<Rightarrow> Job \<Rightarrow> Job" where
  "insert_after job pr (Job c p None) =
     Job c p (Some (Job (command job) (priority job) None))"
| "insert_after job pr (Job c p (Some n)) =
     (if priority n \<ge> pr then Job c p (Some (insert_after job pr n))
      else Job c p (Some (Job (command job) (priority job) (Some n))))"

text \<open>
  \<^verbatim>\<open>enqueue(command, priority)\<close>. The method returns nothing or raises; the queue
  object exists after either, so the model returns the outcome and the queue.
\<close>

definition enqueue :: "Command \<Rightarrow> int \<Rightarrow> PriorityQueue \<Rightarrow> (error + unit) \<times> PriorityQueue" where
  "enqueue c pr q =
     (case Job_init c pr of
        Inl e \<Rightarrow> (Inl e, q)
      | Inr job \<Rightarrow>
          if is_empty q then (Inr (), q\<lparr>head := Some job\<rparr>)
          else if pr > priority (the (head q)) then
            (Inr (), q\<lparr>head := Some (Job (command job) (priority job) (head q))\<rparr>)
          else (Inr (), q\<lparr>head := Some (insert_after job pr (the (head q)))\<rparr>))"

definition dequeue :: "PriorityQueue \<Rightarrow> Command option \<times> PriorityQueue" where
  "dequeue q =
     (if is_empty q then (None, q)
      else let job = the (head q) in (Some (command job), q\<lparr>head := next' job\<rparr>))"

definition peek :: "PriorityQueue \<Rightarrow> Command option \<times> PriorityQueue" where
  "peek q = (if is_empty q then (None, q) else (Some (command (the (head q))), q))"

subsection \<open>Reading a chain\<close>

text \<open>The (command, priority) pairs of a chain, from a node to the tail.\<close>

fun jobs :: "Job \<Rightarrow> (Command \<times> int) list" where
  "jobs (Job c p None) = [(c, p)]"
| "jobs (Job c p (Some n)) = (c, p) # jobs n"

definition chain :: "PriorityQueue \<Rightarrow> (Command \<times> int) list" where
  "chain q = (case head q of None \<Rightarrow> [] | Some j \<Rightarrow> jobs j)"

text \<open>The chain that holds the given pairs, head first.\<close>

fun link :: "(Command \<times> int) list \<Rightarrow> Job option" where
  "link [] = None"
| "link ((c, p) # xs) = Some (Job c p (link xs))"

definition non_increasing :: "(Command \<times> int) list \<Rightarrow> bool" where
  "non_increasing xs = sorted_wrt (\<lambda>a b. snd b \<le> snd a) xs"

definition valid_calls :: "(Command \<times> int) list \<Rightarrow> bool" where
  "valid_calls calls = list_all (\<lambda>cp. MIN_PR \<le> snd cp \<and> snd cp \<le> MAX_PR) calls"

subsection \<open>Callers\<close>

text \<open>
  The loop of the driver: \<^verbatim>\<open>for (command, priority) in commands: pq.enqueue(command, priority)\<close>.
  An exception ends the loop and leaves the queue as the failed call left it.
\<close>

fun enqueue_all :: "(Command \<times> int) list \<Rightarrow> PriorityQueue \<Rightarrow> (error + unit) \<times> PriorityQueue" where
  "enqueue_all [] q = (Inr (), q)"
| "enqueue_all ((c, pr) # cs) q =
     (case enqueue c pr q of
        (Inl e, q') \<Rightarrow> (Inl e, q')
      | (Inr u, q') \<Rightarrow> enqueue_all cs q')"

text \<open>\<^verbatim>\<open>n\<close> calls of \<^verbatim>\<open>dequeue\<close>, with every returned value.\<close>

fun dequeue_times :: "nat \<Rightarrow> PriorityQueue \<Rightarrow> Command option list \<times> PriorityQueue" where
  "dequeue_times 0 q = ([], q)"
| "dequeue_times (Suc n) q =
     (case dequeue q of (r, q') \<Rightarrow> (case dequeue_times n q' of (rs, q'') \<Rightarrow> (r # rs, q'')))"

text \<open>\<^verbatim>\<open>n\<close> calls of \<^verbatim>\<open>peek\<close>, with every returned value.\<close>

fun peek_times :: "nat \<Rightarrow> PriorityQueue \<Rightarrow> Command option list \<times> PriorityQueue" where
  "peek_times 0 q = ([], q)"
| "peek_times (Suc n) q =
     (case peek q of (r, q') \<Rightarrow> (case peek_times n q' of (rs, q'') \<Rightarrow> (r # rs, q'')))"

text \<open>
  A caller that empties the queue:
  \<^verbatim>\<open>while not pq.is_empty(): out.append(pq.dequeue())\<close>.
\<close>

function drain :: "PriorityQueue \<Rightarrow> Command option list" where
  "drain q = (if is_empty q then [] else (case dequeue q of (r, q') \<Rightarrow> r # drain q'))"
  by pat_completeness auto
termination
  apply (relation "measure (\<lambda>q. length (chain q))")
   apply simp
  apply (auto simp: is_empty_def dequeue_def chain_def)
  subgoal for q j
    apply (cases j)
    subgoal for c p nx
      by (cases nx) simp_all
    done
  done

declare drain.simps [simp del]

text \<open>
  Any sequence of calls on one queue. The values that \<^verbatim>\<open>dequeue\<close>, \<^verbatim>\<open>peek\<close> and
  \<^verbatim>\<open>is_empty\<close> return are dropped; an exception ends the sequence.
\<close>

datatype operation = Enqueue Command int | Dequeue | Peek | IsEmpty

fun apply_operation :: "operation \<Rightarrow> PriorityQueue \<Rightarrow> (error + unit) \<times> PriorityQueue" where
  "apply_operation (Enqueue c pr) q = enqueue c pr q"
| "apply_operation Dequeue q = (Inr (), snd (dequeue q))"
| "apply_operation Peek q = (Inr (), snd (peek q))"
| "apply_operation IsEmpty q = (Inr (), q)"

fun run :: "operation list \<Rightarrow> PriorityQueue \<Rightarrow> (error + unit) \<times> PriorityQueue" where
  "run [] q = (Inr (), q)"
| "run (x # xs) q =
     (case apply_operation x q of
        (Inl e, q') \<Rightarrow> (Inl e, q')
      | (Inr u, q') \<Rightarrow> run xs q')"

text \<open>The arguments of the \<^verbatim>\<open>enqueue\<close> calls of a sequence, in call order.\<close>

fun enqueued :: "operation list \<Rightarrow> (Command \<times> int) list" where
  "enqueued [] = []"
| "enqueued (Enqueue c pr # xs) = (c, pr) # enqueued xs"
| "enqueued (x # xs) = enqueued xs"

subsection \<open>The driver\<close>

text \<open>
  \<^verbatim>\<open>answer4\<close>: the JSON list of the driver, as the (command, priority) pairs that
  \<^verbatim>\<open>command.values()\<close> unpacks.
\<close>

definition commands :: "(Command \<times> int) list" where
  "commands =
     [(''zbe'', 7), (''lmy'', 10), (''swc'', 7), (''jtc'', 2), (''slg'', 4),
      (''rwa'', 10), (''zln'', 1), (''ytm'', 6), (''aou'', 8), (''uuv'', 3)]"

definition expected :: "Command list" where
  "expected = [''lmy'', ''rwa'', ''aou'', ''zbe'', ''swc'', ''ytm'', ''slg'', ''uuv'', ''jtc'', ''zln'']"

text \<open>
  \<^verbatim>\<open>if comm: queued_commands.append(comm)\<close>: \<^verbatim>\<open>None\<close> and the empty string are
  false in Python.
\<close>

fun truthy :: "Command option \<Rightarrow> bool" where
  "truthy None = False"
| "truthy (Some c) = (c \<noteq> [])"

text \<open>
  The body of \<^verbatim>\<open>answer4\<close> up to its final \<^verbatim>\<open>assert\<close>: with
  \<^verbatim>\<open>MAX = len(commands) + 1\<close> it enqueues \<^verbatim>\<open>commands[:MAX]\<close>, calls
  \<^verbatim>\<open>dequeue\<close> \<^verbatim>\<open>MAX\<close> times and keeps the results that are true. The result is
  \<^verbatim>\<open>queued_commands\<close>, or the exception of a failed \<^verbatim>\<open>enqueue\<close>.
\<close>

definition answer4 :: "error + Command list" where
  "answer4 =
     (let MAX' = length commands + 1 in
      case enqueue_all (take MAX' commands) PriorityQueue_init of
        (Inl e, pq) \<Rightarrow> Inl e
      | (Inr u, pq) \<Rightarrow> Inr (map the (filter truthy (fst (dequeue_times MAX' pq)))))"

section \<open>Chains as lists\<close>

lemma jobs_not_Nil: "jobs j \<noteq> []"
  by (induction j rule: jobs.induct) simp_all

lemma jobs_hd: "jobs j = (command j, priority j) # (case next' j of None \<Rightarrow> [] | Some n \<Rightarrow> jobs n)"
  by (induction j rule: jobs.induct) simp_all

lemma chain_link: "chain \<lparr>head = link xs\<rparr> = xs"
  by (induction xs rule: link.induct) (simp_all add: chain_def jobs_hd)

lemma jobs_insert_after:
  "jobs (insert_after job pr cur) =
     (command cur, priority cur) #
       takeWhile (\<lambda>j. pr \<le> snd j) (tl (jobs cur)) @
       (command job, priority job) # dropWhile (\<lambda>j. pr \<le> snd j) (tl (jobs cur))"
proof (induction job pr cur rule: insert_after.induct)
  case (1 job pr c p)
  show ?case by simp
next
  case (2 job pr c p n)
  show ?case
  proof (cases "pr \<le> priority n")
    case True
    with 2 show ?thesis by (simp add: jobs_hd [of n])
  next
    case False
    then show ?thesis by (simp add: jobs_hd [of n])
  qed
qed

section \<open>What enqueue does to the chain\<close>

lemma Job_init_valid: "MIN_PR \<le> pr \<Longrightarrow> pr \<le> MAX_PR \<Longrightarrow> Job_init c pr = Inr (Job c pr None)"
  by (simp add: Job_init_def)

lemma Job_init_invalid: "pr < MIN_PR \<or> MAX_PR < pr \<Longrightarrow> Job_init c pr = Inl InvalidPriority"
  by (auto simp add: Job_init_def)

lemma enqueue_valid_fst:
  "MIN_PR \<le> pr \<Longrightarrow> pr \<le> MAX_PR \<Longrightarrow> fst (enqueue c pr q) = Inr ()"
  by (simp add: enqueue_def Job_init_valid)

lemma chain_enqueue:
  assumes "MIN_PR \<le> pr" and "pr \<le> MAX_PR"
  shows "chain (snd (enqueue c pr q)) =
     takeWhile (\<lambda>j. pr \<le> snd j) (chain q) @ (c, pr) # dropWhile (\<lambda>j. pr \<le> snd j) (chain q)"
proof (cases "head q")
  case None
  with assms show ?thesis
    by (simp add: enqueue_def Job_init_valid is_empty_def chain_def)
next
  case (Some h)
  show ?thesis
  proof (cases "pr > priority h")
    case True
    with assms Some show ?thesis
      by (simp add: enqueue_def Job_init_valid is_empty_def chain_def jobs_hd [of h] jobs_hd [of "Job c pr (Some h)"])
  next
    case False
    with assms Some show ?thesis
      by (simp add: enqueue_def Job_init_valid is_empty_def chain_def jobs_insert_after)
        (simp add: jobs_hd [of h])
  qed
qed

lemma dropWhile_below:
  "sorted_wrt (\<lambda>a b. snd b \<le> snd a) xs \<Longrightarrow> y \<in> set (dropWhile (\<lambda>j. pr \<le> snd j) xs) \<Longrightarrow> snd y < (pr::int)"
  by (induction xs) (auto split: if_splits)

lemma non_increasing_place:
  assumes "non_increasing xs"
  shows "non_increasing (takeWhile (\<lambda>j. pr \<le> snd j) xs @ (c, pr) # dropWhile (\<lambda>j. pr \<le> snd j) xs)"
proof -
  let ?P = "\<lambda>j::Command \<times> int. pr \<le> snd j"
  from assms have s: "sorted_wrt (\<lambda>a b. snd b \<le> snd a) xs"
    by (simp add: non_increasing_def)
  have below: "\<forall>y\<in>set (dropWhile ?P xs). snd y < pr"
    using dropWhile_below [OF s] by blast
  have above: "\<forall>x\<in>set (takeWhile ?P xs). pr \<le> snd x"
    by (auto dest: set_takeWhileD)
  have "sorted_wrt (\<lambda>a b. snd b \<le> snd a) (takeWhile ?P xs)"
    using s by (rule sorted_wrt_takeWhile)
  moreover have "sorted_wrt (\<lambda>a b. snd b \<le> snd a) (dropWhile ?P xs)"
    using s by (rule sorted_wrt_dropWhile)
  ultimately show ?thesis
    unfolding non_increasing_def sorted_wrt_append
    using below above by fastforce
qed

lemma filter_place:
  assumes "non_increasing xs"
  shows "filter (\<lambda>j. snd j = p) (takeWhile (\<lambda>j. pr \<le> snd j) xs @ (c, pr) # dropWhile (\<lambda>j. pr \<le> snd j) xs)
     = filter (\<lambda>j. snd j = p) (xs @ [(c, pr)])"
proof -
  let ?P = "\<lambda>j::Command \<times> int. pr \<le> snd j"
  let ?F = "filter (\<lambda>j::Command \<times> int. snd j = p)"
  from assms have s: "sorted_wrt (\<lambda>a b. snd b \<le> snd a) xs"
    by (simp add: non_increasing_def)
  have split: "?F xs = ?F (takeWhile ?P xs) @ ?F (dropWhile ?P xs)"
    by (simp flip: filter_append)
  show ?thesis
  proof (cases "p = pr")
    case True
    have "?F (dropWhile ?P xs) = []"
      using dropWhile_below [OF s, of _ pr] True by (auto simp: filter_empty_conv)
    with True split show ?thesis by simp
  next
    case False
    with split show ?thesis by simp
  qed
qed

section \<open>What dequeue does to the chain\<close>

lemma chain_dequeue: "chain (snd (dequeue q)) = tl (chain q)"
  by (cases "head q") (simp_all add: dequeue_def is_empty_def chain_def Let_def jobs_hd split: option.splits)

lemma fst_dequeue: "fst (dequeue q) = (case chain q of [] \<Rightarrow> None | x # xs \<Rightarrow> Some (fst x))"
  by (cases "head q") (simp_all add: dequeue_def is_empty_def chain_def Let_def jobs_hd split: option.splits)

lemma is_empty_chain: "is_empty q = (chain q = [])"
  by (cases "head q") (simp_all add: is_empty_def chain_def jobs_not_Nil)

lemma non_increasing_tl: "non_increasing xs \<Longrightarrow> non_increasing (tl xs)"
  by (cases xs) (simp_all add: non_increasing_def)

lemma enqueue_all_from:
  assumes "valid_calls calls" and "non_increasing (chain q)"
  shows "fst (enqueue_all calls q) = Inr () \<and>
         non_increasing (chain (snd (enqueue_all calls q))) \<and>
         (\<forall>p. filter (\<lambda>j. snd j = p) (chain (snd (enqueue_all calls q)))
               = filter (\<lambda>j. snd j = p) (chain q @ calls))"
  using assms
proof (induction calls arbitrary: q)
  case Nil
  then show ?case by simp
next
  case (Cons a calls)
  obtain c pr where a: "a = (c, pr)" by (cases a)
  from Cons.prems(1) a have v: "MIN_PR \<le> pr" "pr \<le> MAX_PR" and vs: "valid_calls calls"
    by (simp_all add: valid_calls_def)
  obtain q1 where ok: "enqueue c pr q = (Inr (), q1)"
    using enqueue_valid_fst [OF v, of c q] by (cases "enqueue c pr q") simp
  then have q1: "q1 = snd (enqueue c pr q)" by simp
  have s: "non_increasing (chain q1)"
    unfolding q1 by (simp add: chain_enqueue [OF v] non_increasing_place [OF Cons.prems(2)])
  have f: "filter (\<lambda>j. snd j = p) (chain q1) = filter (\<lambda>j. snd j = p) (chain q @ [(c, pr)])" for p
    unfolding q1 by (simp only: chain_enqueue [OF v] filter_place [OF Cons.prems(2)])
  have step: "enqueue_all (a # calls) q = enqueue_all calls q1"
    by (simp add: a ok)
  from Cons.IH [OF vs s] f show ?case
    unfolding step by (simp add: a)
qed

section \<open>Repeated peeks\<close>

lemma peek_times_eq: "peek_times n q = (replicate n (fst (peek q)), q)"
  by (induction n) (simp_all add: peek_def)

section \<open>Sequences of calls\<close>

lemma chain_init: "chain PriorityQueue_init = []"
  by (simp add: chain_def PriorityQueue_init_def)

lemma non_increasing_Nil: "non_increasing []"
  by (simp add: non_increasing_def)

lemma mset_enqueue_all:
  "valid_calls calls \<Longrightarrow>
   mset (chain (snd (enqueue_all calls q))) = mset (chain q) + mset calls"
proof (induction calls arbitrary: q)
  case Nil
  then show ?case by simp
next
  case (Cons a calls)
  obtain c pr where a: "a = (c, pr)" by (cases a)
  from Cons.prems a have v: "MIN_PR \<le> pr" "pr \<le> MAX_PR" and vs: "valid_calls calls"
    by (simp_all add: valid_calls_def)
  obtain q1 where ok: "enqueue c pr q = (Inr (), q1)"
    using enqueue_valid_fst [OF v, of c q] by (cases "enqueue c pr q") simp
  then have q1: "q1 = snd (enqueue c pr q)" by simp
  have "mset (chain q1) = add_mset (c, pr) (mset (takeWhile (\<lambda>j. pr \<le> snd j) (chain q) @ dropWhile (\<lambda>j. pr \<le> snd j) (chain q)))"
    unfolding q1 chain_enqueue [OF v] by (simp del: takeWhile_dropWhile_id)
  then have m: "mset (chain q1) = add_mset (c, pr) (mset (chain q))"
    by (simp only: takeWhile_dropWhile_id)
  have step: "enqueue_all (a # calls) q = enqueue_all calls q1"
    by (simp add: a ok)
  show ?case
    unfolding step Cons.IH [OF vs] m by (simp add: a)
qed

lemma suffix_filter_tl: "suffix (filter P (tl xs)) (filter P xs)"
  by (cases xs) (simp_all add: suffix_Cons)

lemma run_from:
  assumes "valid_calls (enqueued ops)" and "non_increasing (chain q)"
  shows "fst (run ops q) = Inr () \<and>
         non_increasing (chain (snd (run ops q))) \<and>
         (\<forall>p. suffix (filter (\<lambda>j. snd j = p) (chain (snd (run ops q))))
                      (filter (\<lambda>j. snd j = p) (chain q @ enqueued ops)))"
  using assms
proof (induction ops arbitrary: q)
  case Nil
  then show ?case by simp
next
  case (Cons x ops)
  show ?case
  proof (cases x)
    case (Enqueue c pr)
    from Cons.prems(1) Enqueue have v: "MIN_PR \<le> pr" "pr \<le> MAX_PR"
      and vs: "valid_calls (enqueued ops)"
      by (simp_all add: valid_calls_def)
    obtain q1 where ok: "enqueue c pr q = (Inr (), q1)"
      using enqueue_valid_fst [OF v, of c q] by (cases "enqueue c pr q") simp
    then have q1: "q1 = snd (enqueue c pr q)" by simp
    have s: "non_increasing (chain q1)"
      unfolding q1 by (simp add: chain_enqueue [OF v] non_increasing_place [OF Cons.prems(2)])
    have f: "filter (\<lambda>j. snd j = p) (chain q1) = filter (\<lambda>j. snd j = p) (chain q @ [(c, pr)])" for p
      unfolding q1 by (simp only: chain_enqueue [OF v] filter_place [OF Cons.prems(2)])
    have step: "run (x # ops) q = run ops q1"
      by (simp add: Enqueue ok)
    have "suffix (filter (\<lambda>j. snd j = p) (chain (snd (run ops q1))))
            (filter (\<lambda>j. snd j = p) (chain q @ enqueued (x # ops)))" for p
    proof -
      have e: "filter (\<lambda>j. snd j = p) (chain q @ enqueued (x # ops))
                 = filter (\<lambda>j. snd j = p) (chain q1 @ enqueued ops)"
        using f [of p] by (simp add: Enqueue)
      from Cons.IH [OF vs s] show ?thesis
        unfolding e by blast
    qed
    with Cons.IH [OF vs s] show ?thesis
      unfolding step by blast
  next
    case Dequeue
    from Cons.prems(1) Dequeue have vs: "valid_calls (enqueued ops)"
      by simp
    let ?q1 = "snd (dequeue q)"
    have s: "non_increasing (chain ?q1)"
      using Cons.prems(2) by (simp add: chain_dequeue non_increasing_tl)
    have step: "run (x # ops) q = run ops ?q1"
      by (simp add: Dequeue)
    have "suffix (filter (\<lambda>j. snd j = p) (chain (snd (run ops ?q1))))
            (filter (\<lambda>j. snd j = p) (chain q @ enqueued ops))" for p
    proof -
      from Cons.IH [OF vs s]
      have "suffix (filter (\<lambda>j. snd j = p) (chain (snd (run ops ?q1))))
              (filter (\<lambda>j. snd j = p) (tl (chain q)) @ filter (\<lambda>j. snd j = p) (enqueued ops))"
        by (simp add: chain_dequeue)
      moreover have "suffix (filter (\<lambda>j. snd j = p) (tl (chain q)) @ filter (\<lambda>j. snd j = p) (enqueued ops))
              (filter (\<lambda>j. snd j = p) (chain q) @ filter (\<lambda>j. snd j = p) (enqueued ops))"
        using suffix_filter_tl [of "\<lambda>j. snd j = p" "chain q"] by simp
      ultimately show ?thesis
        by (simp add: suffix_order.trans)
    qed
    with Cons.IH [OF vs s] show ?thesis
      unfolding step by (simp add: Dequeue)
  next
    case Peek
    from Cons.prems(1) Peek have vs: "valid_calls (enqueued ops)"
      by simp
    have step: "run (x # ops) q = run ops q"
      by (simp add: Peek peek_def)
    from Cons.IH [OF vs Cons.prems(2)] show ?thesis
      unfolding step by (simp add: Peek)
  next
    case IsEmpty
    from Cons.prems(1) IsEmpty have vs: "valid_calls (enqueued ops)"
      by simp
    have step: "run (x # ops) q = run ops q"
      by (simp add: IsEmpty)
    from Cons.IH [OF vs Cons.prems(2)] show ?thesis
      unfolding step by (simp add: IsEmpty)
  qed
qed

section \<open>Emptying the queue\<close>

lemma drain_chain: "drain q = map (\<lambda>j. Some (fst j)) (chain q)"
proof (induction q rule: drain.induct)
  case (1 q)
  show ?case
  proof (cases "is_empty q")
    case True
    then show ?thesis by (simp add: drain.simps [of q] is_empty_chain [symmetric])
  next
    case False
    obtain r q' where d: "dequeue q = (r, q')" by (cases "dequeue q")
    from False obtain x xs where c: "chain q = x # xs"
      by (cases "chain q") (simp_all add: is_empty_chain)
    from d have r: "r = fst (dequeue q)" and q': "q' = snd (dequeue q)" by simp_all
    have "drain q' = map (\<lambda>j. Some (fst j)) (chain q')"
      using 1 [OF False d [symmetric]] .
    then have "drain q' = map (\<lambda>j. Some (fst j)) xs"
      by (simp add: q' chain_dequeue c)
    moreover have "r = Some (fst x)"
      by (simp add: r fst_dequeue c)
    moreover have "drain q = r # drain q'"
      using False d by (simp add: drain.simps [of q])
    ultimately show ?thesis
      by (simp add: c)
  qed
qed

lemma chain_enqueue_all_sort:
  assumes "valid_calls calls"
  shows "chain (snd (enqueue_all calls PriorityQueue_init)) = sort_key (\<lambda>j. - snd j) calls"
proof -
  let ?ys = "chain (snd (enqueue_all calls PriorityQueue_init))"
  have s: "non_increasing (chain PriorityQueue_init)"
    by (simp add: chain_init non_increasing_Nil)
  have m: "mset ?ys = mset calls"
    using mset_enqueue_all [OF assms, of PriorityQueue_init] by (simp add: chain_init)
  have f: "filter (\<lambda>x. - snd k = - snd x) ?ys = filter (\<lambda>x. - snd k = - snd x) calls" for k
  proof -
    have e: "(\<lambda>x::Command \<times> int. - snd k = - snd x) = (\<lambda>x. snd x = snd k)"
      by auto
    from enqueue_all_from [OF assms s] show ?thesis
      unfolding e by (simp add: chain_init)
  qed
  have "non_increasing ?ys"
    using enqueue_all_from [OF assms s] by blast
  then have "sorted (map (\<lambda>j. - snd j) ?ys)"
    by (simp add: non_increasing_def sorted_map)
  with m f show ?thesis
    by (intro properties_for_sort_key [symmetric]) simp_all
qed

section \<open>The claims\<close>

text \<open>
  C1. After any sequence of \<^verbatim>\<open>enqueue\<close> calls with priorities in [MIN_PR, MAX_PR] on a
  fresh queue, every call has succeeded, the chain read from head to tail has
  non-increasing priorities, and for every priority the jobs of that priority stand in
  the chain in the order of their enqueue calls. The invariant also holds before and
  after every operation: after any sequence of \<^verbatim>\<open>enqueue\<close>, \<^verbatim>\<open>dequeue\<close>, \<^verbatim>\<open>peek\<close>
  and \<^verbatim>\<open>is_empty\<close> calls (the enqueues with valid priorities) the chain is
  non-increasing, and for every priority the jobs of that priority still queued are the
  last ones enqueued with it, in enqueue order.
\<close>

theorem stable_descending_invariant:
  assumes "valid_calls calls" and "valid_calls (enqueued ops)"
  shows "fst (enqueue_all calls PriorityQueue_init) = Inr () \<and>
         non_increasing (chain (snd (enqueue_all calls PriorityQueue_init))) \<and>
         (\<forall>p. filter (\<lambda>j. snd j = p) (chain (snd (enqueue_all calls PriorityQueue_init)))
               = filter (\<lambda>j. snd j = p) calls) \<and>
         fst (run ops PriorityQueue_init) = Inr () \<and>
         non_increasing (chain (snd (run ops PriorityQueue_init))) \<and>
         (\<forall>p. suffix (filter (\<lambda>j. snd j = p) (chain (snd (run ops PriorityQueue_init))))
                      (filter (\<lambda>j. snd j = p) (enqueued ops)))"
proof -
  have s: "non_increasing (chain PriorityQueue_init)"
    by (simp add: chain_init non_increasing_Nil)
  from enqueue_all_from [OF assms(1) s] run_from [OF assms(2) s]
  show ?thesis
    by (simp add: chain_init)
qed

theorem stable_descending_invariant_witness:
  "valid_calls [(''zbe'', 7), (''lmy'', 10), (''swc'', 7)] \<and>
   valid_calls (enqueued [Enqueue ''zbe'' 7, Enqueue ''swc'' 7, Peek, Dequeue, Enqueue ''aou'' 7, IsEmpty]) \<and>
   fst (enqueue_all [(''zbe'', 7), (''lmy'', 10), (''swc'', 7)] PriorityQueue_init) = Inr () \<and>
   non_increasing (chain (snd (enqueue_all [(''zbe'', 7), (''lmy'', 10), (''swc'', 7)] PriorityQueue_init))) \<and>
   (\<forall>p. filter (\<lambda>j. snd j = p) (chain (snd (enqueue_all [(''zbe'', 7), (''lmy'', 10), (''swc'', 7)] PriorityQueue_init)))
         = filter (\<lambda>j. snd j = p) [(''zbe'', 7), (''lmy'', 10), (''swc'', 7)]) \<and>
   chain (snd (enqueue_all [(''zbe'', 7), (''lmy'', 10), (''swc'', 7)] PriorityQueue_init))
     = [(''lmy'', 10), (''zbe'', 7), (''swc'', 7)] \<and>
   fst (run [Enqueue ''zbe'' 7, Enqueue ''swc'' 7, Peek, Dequeue, Enqueue ''aou'' 7, IsEmpty] PriorityQueue_init) = Inr () \<and>
   non_increasing (chain (snd (run [Enqueue ''zbe'' 7, Enqueue ''swc'' 7, Peek, Dequeue, Enqueue ''aou'' 7, IsEmpty] PriorityQueue_init))) \<and>
   chain (snd (run [Enqueue ''zbe'' 7, Enqueue ''swc'' 7, Peek, Dequeue, Enqueue ''aou'' 7, IsEmpty] PriorityQueue_init))
     = [(''swc'', 7), (''aou'', 7)]"
proof -
  have v1: "valid_calls [(''zbe'', 7), (''lmy'', 10), (''swc'', 7)]"
    by (simp add: valid_calls_def MIN_PR_def MAX_PR_def)
  have v2: "valid_calls (enqueued [Enqueue ''zbe'' 7, Enqueue ''swc'' 7, Peek, Dequeue, Enqueue ''aou'' 7, IsEmpty])"
    by (simp add: valid_calls_def MIN_PR_def MAX_PR_def)
  have c1: "chain (snd (enqueue_all [(''zbe'', 7), (''lmy'', 10), (''swc'', 7)] PriorityQueue_init))
     = [(''lmy'', 10), (''zbe'', 7), (''swc'', 7)]"
    by code_simp
  have c2: "chain (snd (run [Enqueue ''zbe'' 7, Enqueue ''swc'' 7, Peek, Dequeue, Enqueue ''aou'' 7, IsEmpty] PriorityQueue_init))
     = [(''swc'', 7), (''aou'', 7)]"
    by code_simp
  from stable_descending_invariant [OF v1 v2] v1 v2 c1 c2 show ?thesis
    by blast
qed

text \<open>
  C2. After any sequence of valid \<^verbatim>\<open>enqueue\<close> calls on a fresh queue, calling
  \<^verbatim>\<open>dequeue\<close> until \<^verbatim>\<open>is_empty\<close> returns the commands of the calls stably sorted by
  descending priority: the returned values are exactly the enqueued commands as a
  multiset (none is the absent value), in non-increasing priority order, and commands
  of equal priority come out in the order they were enqueued.
\<close>

theorem drain_returns_priority_then_insertion_order:
  assumes "valid_calls calls"
  shows "fst (enqueue_all calls PriorityQueue_init) = Inr () \<and>
         drain (snd (enqueue_all calls PriorityQueue_init))
           = map (\<lambda>j. Some (fst j)) (sort_key (\<lambda>j. - snd j) calls) \<and>
         mset (drain (snd (enqueue_all calls PriorityQueue_init)))
           = mset (map (\<lambda>j. Some (fst j)) calls) \<and>
         non_increasing (sort_key (\<lambda>j. - snd j) calls) \<and>
         (\<forall>p. filter (\<lambda>j. snd j = p) (sort_key (\<lambda>j. - snd j) calls)
               = filter (\<lambda>j. snd j = p) calls)"
proof -
  have s: "non_increasing (chain PriorityQueue_init)"
    by (simp add: chain_init non_increasing_Nil)
  note c = chain_enqueue_all_sort [OF assms]
  have d: "drain (snd (enqueue_all calls PriorityQueue_init))
           = map (\<lambda>j. Some (fst j)) (sort_key (\<lambda>j. - snd j) calls)"
    by (simp add: drain_chain c)
  have "mset (map (\<lambda>j. Some (fst j)) (sort_key (\<lambda>j. - snd j) calls))
          = mset (map (\<lambda>j. Some (fst j)) calls)"
    by simp
  with d have m: "mset (drain (snd (enqueue_all calls PriorityQueue_init)))
           = mset (map (\<lambda>j. Some (fst j)) calls)"
    by simp
  from enqueue_all_from [OF assms s] d m show ?thesis
    unfolding c by (simp add: chain_init)
qed

theorem drain_returns_priority_then_insertion_order_witness:
  "valid_calls [(''jtc'', 2), (''zbe'', 7), (''lmy'', 10), (''swc'', 7)] \<and>
   fst (enqueue_all [(''jtc'', 2), (''zbe'', 7), (''lmy'', 10), (''swc'', 7)] PriorityQueue_init) = Inr () \<and>
   drain (snd (enqueue_all [(''jtc'', 2), (''zbe'', 7), (''lmy'', 10), (''swc'', 7)] PriorityQueue_init))
     = [Some ''lmy'', Some ''zbe'', Some ''swc'', Some ''jtc'']"
proof -
  have v: "valid_calls [(''jtc'', 2), (''zbe'', 7), (''lmy'', 10), (''swc'', 7)]"
    by (simp add: valid_calls_def MIN_PR_def MAX_PR_def)
  have "map (\<lambda>j. Some (fst j)) (sort_key (\<lambda>j. - snd j) [(''jtc'', 2::int), (''zbe'', 7), (''lmy'', 10), (''swc'', 7)])
          = [Some ''lmy'', Some ''zbe'', Some ''swc'', Some ''jtc'']"
    by simp
  with drain_returns_priority_then_insertion_order [OF v] v show ?thesis
    by simp
qed

text \<open>
  C3. Enqueueing, in order, (zbe,7) (lmy,10) (swc,7) (jtc,2) (slg,4) (rwa,10) (zln,1)
  (ytm,6) (aou,8) (uuv,3) into a fresh queue succeeds and builds the chain lmy, rwa, aou,
  zbe, swc, ytm, slg, uuv, jtc, zln; ten calls of dequeue then return exactly these
  commands in this order and leave the queue empty. The driver \<^verbatim>\<open>answer4\<close>, which
  dequeues eleven times and keeps the results that are true, collects the expected list,
  so its final assertion holds.
\<close>

theorem driver_scenario:
  "enqueue_all commands PriorityQueue_init = (Inr (), \<lparr>head = link
      [(''lmy'', 10), (''rwa'', 10), (''aou'', 8), (''zbe'', 7), (''swc'', 7),
       (''ytm'', 6), (''slg'', 4), (''uuv'', 3), (''jtc'', 2), (''zln'', 1)]\<rparr>) \<and>
   fst (dequeue_times 10 (snd (enqueue_all commands PriorityQueue_init))) =
     [Some ''lmy'', Some ''rwa'', Some ''aou'', Some ''zbe'', Some ''swc'',
      Some ''ytm'', Some ''slg'', Some ''uuv'', Some ''jtc'', Some ''zln''] \<and>
   is_empty (snd (dequeue_times 10 (snd (enqueue_all commands PriorityQueue_init)))) \<and>
   answer4 = Inr expected"
  by code_simp

text \<open>
  C4. For every integer priority, \<^verbatim>\<open>enqueue\<close> fails with InvalidPriority (the failed
  assertion of \<^verbatim>\<open>Job.__post_init__\<close>) exactly when the priority is below 0 or above
  10, and succeeds exactly when it lies in [0, 10]; -1 and 11 fail, 0 and 10 succeed.
  Nothing is clamped or coerced: an accepted call stores the job with the priority it
  was given, and a rejected call stores nothing.
\<close>

theorem enqueue_rejects_exactly_out_of_range:
  "(fst (enqueue c pr q) = Inl InvalidPriority) = (pr < 0 \<or> 10 < pr) \<and>
   (fst (enqueue c pr q) = Inr ()) = (0 \<le> pr \<and> pr \<le> 10) \<and>
   fst (enqueue c (- 1) q) = Inl InvalidPriority \<and>
   fst (enqueue c 11 q) = Inl InvalidPriority \<and>
   fst (enqueue c 0 q) = Inr () \<and>
   fst (enqueue c 10 q) = Inr () \<and>
   chain (snd (enqueue c pr q)) =
     (if 0 \<le> pr \<and> pr \<le> 10
      then takeWhile (\<lambda>j. pr \<le> snd j) (chain q) @ (c, pr) # dropWhile (\<lambda>j. pr \<le> snd j) (chain q)
      else chain q)"
proof -
  have fails: "fst (enqueue c x q) = Inl InvalidPriority" if "x < 0 \<or> 10 < x" for x
    using that by (auto simp: enqueue_def Job_init_def MIN_PR_def MAX_PR_def)
  have succeeds: "fst (enqueue c x q) = Inr ()" if "0 \<le> x \<and> x \<le> 10" for x
    using that by (simp add: enqueue_valid_fst MIN_PR_def MAX_PR_def)
  have unchanged: "snd (enqueue c pr q) = q" if "pr < 0 \<or> 10 < pr"
    using that by (auto simp: enqueue_def Job_init_def MIN_PR_def MAX_PR_def)
  have placed: "chain (snd (enqueue c pr q)) =
      takeWhile (\<lambda>j. pr \<le> snd j) (chain q) @ (c, pr) # dropWhile (\<lambda>j. pr \<le> snd j) (chain q)"
    if "0 \<le> pr \<and> pr \<le> 10"
    using that by (simp add: chain_enqueue MIN_PR_def MAX_PR_def)
  have 1: "(fst (enqueue c pr q) = Inl InvalidPriority) = (pr < 0 \<or> 10 < pr)"
    using fails [of pr] succeeds [of pr] by (cases "pr < 0 \<or> 10 < pr") auto
  have 2: "(fst (enqueue c pr q) = Inr ()) = (0 \<le> pr \<and> pr \<le> 10)"
    using fails [of pr] succeeds [of pr] by (cases "pr < 0 \<or> 10 < pr") auto
  have 3: "chain (snd (enqueue c pr q)) =
     (if 0 \<le> pr \<and> pr \<le> 10
      then takeWhile (\<lambda>j. pr \<le> snd j) (chain q) @ (c, pr) # dropWhile (\<lambda>j. pr \<le> snd j) (chain q)
      else chain q)"
    using placed unchanged by (cases "0 \<le> pr \<and> pr \<le> 10") auto
  show ?thesis
    using 1 2 3 fails [of "- 1"] fails [of 11] succeeds [of 0] succeeds [of 10]
    by simp
qed

text \<open>
  C5. A call of \<^verbatim>\<open>enqueue\<close> with a priority outside [MIN_PR, MAX_PR] raises before
  it changes anything: the queue after the failed call is the queue before it, with the
  same chain and the same answer of \<^verbatim>\<open>is_empty\<close>.
\<close>

theorem failed_enqueue_leaves_queue:
  assumes "pr < MIN_PR \<or> MAX_PR < pr"
  shows "enqueue c pr q = (Inl InvalidPriority, q) \<and>
         chain (snd (enqueue c pr q)) = chain q \<and>
         is_empty (snd (enqueue c pr q)) = is_empty q"
  using assms by (auto simp: enqueue_def Job_init_def)

theorem failed_enqueue_leaves_queue_witness:
  "enqueue ''late'' 11 \<lparr>head = Some (Job ''zbe'' 7 (Some (Job ''jtc'' 2 None)))\<rparr>
     = (Inl InvalidPriority, \<lparr>head = Some (Job ''zbe'' 7 (Some (Job ''jtc'' 2 None)))\<rparr>) \<and>
   chain (snd (enqueue ''late'' 11 \<lparr>head = Some (Job ''zbe'' 7 (Some (Job ''jtc'' 2 None)))\<rparr>))
     = [(''zbe'', 7), (''jtc'', 2)] \<and>
   \<not> is_empty (snd (enqueue ''late'' 11 \<lparr>head = Some (Job ''zbe'' 7 (Some (Job ''jtc'' 2 None)))\<rparr>))"
  using failed_enqueue_leaves_queue
    [of 11 "''late''" "\<lparr>head = Some (Job ''zbe'' 7 (Some (Job ''jtc'' 2 None)))\<rparr>"]
  by (simp add: MIN_PR_def MAX_PR_def chain_def is_empty_def)

text \<open>
  C6. In every queue state, any number of calls of \<^verbatim>\<open>peek\<close> in a row return the
  same value each time and leave the queue as it was: the chain, the answer of
  \<^verbatim>\<open>is_empty\<close> and the outcome of a following \<^verbatim>\<open>dequeue\<close> are unchanged.
\<close>

theorem peek_is_idempotent:
  "fst (peek_times n q) = replicate n (fst (peek q)) \<and>
   snd (peek_times n q) = q \<and>
   chain (snd (peek_times n q)) = chain q \<and>
   is_empty (snd (peek_times n q)) = is_empty q \<and>
   dequeue (snd (peek_times n q)) = dequeue q"
  by (simp add: peek_times_eq)

text \<open>
  C7. On a freshly constructed queue \<^verbatim>\<open>is_empty\<close> is true, and \<^verbatim>\<open>dequeue\<close> and
  \<^verbatim>\<open>peek\<close> both return \<^verbatim>\<open>None\<close>, the absent value, and leave the queue empty;
  neither raises.
\<close>

theorem fresh_queue_is_empty:
  "is_empty PriorityQueue_init \<and>
   dequeue PriorityQueue_init = (None, PriorityQueue_init) \<and>
   peek PriorityQueue_init = (None, PriorityQueue_init) \<and>
   chain PriorityQueue_init = []"
  by (simp add: PriorityQueue_init_def is_empty_def dequeue_def peek_def chain_def)

text \<open>
  C8. On every non-empty queue \<^verbatim>\<open>dequeue\<close> returns the command of the head job and
  sets \<^verbatim>\<open>head\<close> to that job's successor: the chain that remains is the old chain
  without its first element, everything else in place.
\<close>

theorem dequeue_detaches_head:
  assumes "\<not> is_empty q"
  shows "\<exists>j. head q = Some j \<and>
           dequeue q = (Some (command j), q\<lparr>head := next' j\<rparr>) \<and>
           chain q = (command j, priority j) # chain (snd (dequeue q)) \<and>
           chain (snd (dequeue q)) = tl (chain q)"
proof -
  from assms obtain j where j: "head q = Some j"
    by (auto simp: is_empty_def)
  then have d: "dequeue q = (Some (command j), q\<lparr>head := next' j\<rparr>)"
    by (simp add: dequeue_def is_empty_def)
  have "chain q = (command j, priority j) # chain (q\<lparr>head := next' j\<rparr>)"
    using j by (simp add: chain_def jobs_hd [of j])
  then have c: "chain q = (command j, priority j) # chain (snd (dequeue q))"
    by (simp add: d)
  then have "chain (snd (dequeue q)) = tl (chain q)"
    by simp
  with j d c show ?thesis
    by blast
qed

theorem dequeue_detaches_head_witness:
  "\<not> is_empty \<lparr>head = Some (Job ''lmy'' 10 (Some (Job ''zbe'' 7 None)))\<rparr> \<and>
   dequeue \<lparr>head = Some (Job ''lmy'' 10 (Some (Job ''zbe'' 7 None)))\<rparr>
     = (Some ''lmy'', \<lparr>head = Some (Job ''zbe'' 7 None)\<rparr>) \<and>
   chain (snd (dequeue \<lparr>head = Some (Job ''lmy'' 10 (Some (Job ''zbe'' 7 None)))\<rparr>))
     = [(''zbe'', 7)]"
proof -
  let ?q = "\<lparr>head = Some (Job ''lmy'' 10 (Some (Job ''zbe'' 7 None)))\<rparr>"
  have ne: "\<not> is_empty ?q"
    by (simp add: is_empty_def)
  from dequeue_detaches_head [OF ne] obtain j
    where j: "head ?q = Some j"
      and d: "dequeue ?q = (Some (command j), ?q\<lparr>head := next' j\<rparr>)"
    by blast
  from j have "j = Job ''lmy'' 10 (Some (Job ''zbe'' 7 None))"
    by simp
  with d have "dequeue ?q = (Some ''lmy'', \<lparr>head = Some (Job ''zbe'' 7 None)\<rparr>)"
    by simp
  with ne show ?thesis
    by (simp add: chain_def)
qed

text \<open>
  C9. In every queue state \<^verbatim>\<open>peek\<close> returns the value that \<^verbatim>\<open>dequeue\<close> would
  return in that state (\<^verbatim>\<open>None\<close> on an empty queue), and does not change the queue.
\<close>

theorem peek_agrees_with_dequeue:
  "fst (peek q) = fst (dequeue q) \<and> snd (peek q) = q"
  by (simp add: peek_def dequeue_def Let_def)

text \<open>
  C10. In every queue state, a call of \<^verbatim>\<open>enqueue\<close> with a priority in [MIN_PR, MAX_PR]
  succeeds and only splices the new job in: the old chain splits into a front and a
  back part, and the new chain is the front part, the new job, and the back part. So
  every job queued before is still there with its command and priority, in the same
  relative order, and the chain is longer by exactly one.
\<close>

theorem enqueue_only_splices_new_job:
  assumes "MIN_PR \<le> pr" and "pr \<le> MAX_PR"
  shows "fst (enqueue c pr q) = Inr () \<and>
         (\<exists>xs ys. chain q = xs @ ys \<and> chain (snd (enqueue c pr q)) = xs @ (c, pr) # ys) \<and>
         length (chain (snd (enqueue c pr q))) = Suc (length (chain q)) \<and>
         mset (chain (snd (enqueue c pr q))) = add_mset (c, pr) (mset (chain q)) \<and>
         subseq (chain q) (chain (snd (enqueue c pr q)))"
proof -
  let ?xs = "takeWhile (\<lambda>j. pr \<le> snd j) (chain q)"
  let ?ys = "dropWhile (\<lambda>j. pr \<le> snd j) (chain q)"
  have old: "chain q = ?xs @ ?ys"
    by simp
  have new: "chain (snd (enqueue c pr q)) = ?xs @ (c, pr) # ?ys"
    by (rule chain_enqueue [OF assms])
  have len: "length (chain (snd (enqueue c pr q))) = Suc (length (?xs @ ?ys))"
    unfolding new by (simp del: takeWhile_dropWhile_id)
  have ms: "mset (chain (snd (enqueue c pr q))) = add_mset (c, pr) (mset (?xs @ ?ys))"
    unfolding new by (simp del: takeWhile_dropWhile_id)
  have "subseq ?ys ((c, pr) # ?ys)"
    by (rule list_emb_Cons) simp
  then have "subseq (?xs @ ?ys) (?xs @ (c, pr) # ?ys)"
    using list_emb_append_mono [of "(=)" ?xs ?xs ?ys "(c, pr) # ?ys"] by simp
  then have sub: "subseq (chain q) (chain (snd (enqueue c pr q)))"
    unfolding new by simp
  from old new have "\<exists>xs ys. chain q = xs @ ys \<and> chain (snd (enqueue c pr q)) = xs @ (c, pr) # ys"
    by blast
  with enqueue_valid_fst [OF assms, of c q] len ms sub show ?thesis
    by simp
qed

theorem enqueue_only_splices_new_job_witness:
  "MIN_PR \<le> 7 \<and> 7 \<le> MAX_PR \<and>
   fst (enqueue ''swc'' 7 \<lparr>head = link [(''lmy'', 10), (''zbe'', 7), (''jtc'', 2)]\<rparr>) = Inr () \<and>
   chain (snd (enqueue ''swc'' 7 \<lparr>head = link [(''lmy'', 10), (''zbe'', 7), (''jtc'', 2)]\<rparr>))
     = [(''lmy'', 10), (''zbe'', 7), (''swc'', 7), (''jtc'', 2)] \<and>
   length (chain (snd (enqueue ''swc'' 7 \<lparr>head = link [(''lmy'', 10), (''zbe'', 7), (''jtc'', 2)]\<rparr>)))
     = Suc (length (chain \<lparr>head = link [(''lmy'', 10), (''zbe'', 7), (''jtc'', 2)]\<rparr>))"
proof -
  have v: "MIN_PR \<le> 7" "7 \<le> MAX_PR"
    by (simp_all add: MIN_PR_def MAX_PR_def)
  have c: "chain (snd (enqueue ''swc'' 7 \<lparr>head = link [(''lmy'', 10), (''zbe'', 7), (''jtc'', 2)]\<rparr>))
     = [(''lmy'', 10), (''zbe'', 7), (''swc'', 7), (''jtc'', 2)]"
    by code_simp
  from enqueue_only_splices_new_job [OF v, of "''swc''" "\<lparr>head = link [(''lmy'', 10), (''zbe'', 7), (''jtc'', 2)]\<rparr>"] v c
  show ?thesis
    by blast
qed


end
